theory Spec2Isabelle
  imports Main "HOL-Library.AList"
begin

section \<open>JavaScript values and plain objects\<close>

text \<open>
  The cache of \<^verbatim>\<open>LazyMobXCache.ts\<close> is generic in its data and metadata types, but the
  way it publishes entries (\<^verbatim>\<open>this._cache.merge(toMerge, {deep:true})\<close>) looks inside the
  values: a plain object is merged field by field, anything else is replaced. The values
  are therefore modelled as a datatype of JavaScript values. A plain object is the list of
  its own enumerable properties in insertion order.
\<close>

datatype jsval =
    JUndefined
  | JNull
  | JBool bool
  | JNum int
  | JStr string
  | JArr "jsval list"
  | JObj "(string \<times> jsval) list"

type_synonym 'v obj = "(string \<times> 'v) list"

text \<open>
  The cache uses objects as dictionaries and indexes them with arbitrary key strings, so
  what a read finds is decided by more than the properties the cache has assigned. The
  objects are created by \<^verbatim>\<open>{}\<close> and inherit from \<^verbatim>\<open>Object.prototype\<close>: a read of one
  of the names below that is not an own property finds the inherited function (for
  \<^verbatim>\<open>__proto__\<close>, the prototype object itself).
\<close>

definition object_prototype_names :: "string list" where
  "object_prototype_names =
     [''constructor'', ''hasOwnProperty'', ''isPrototypeOf'', ''propertyIsEnumerable'',
      ''toLocaleString'', ''toString'', ''valueOf'', ''__defineGetter__'',
      ''__defineSetter__'', ''__lookupGetter__'', ''__lookupSetter__'', ''__proto__'']"

text \<open>
  What \<^verbatim>\<open>o[key]\<close> gives: \<^verbatim>\<open>undefined\<close>, a value the program has stored under the key,
  or a built-in value (a function or an object, truthy in either case) that the program
  has not stored.
\<close>

datatype 'v lookup = Undefined | Value 'v | Builtin

definition read_plain :: "(string \<rightharpoonup> 'v) \<Rightarrow> string \<Rightarrow> 'v lookup" where
  "read_plain own key =
     (case own key of
        Some v \<Rightarrow> Value v
      | None \<Rightarrow> if key \<in> set object_prototype_names then Builtin else Undefined)"

text \<open>
  \<^verbatim>\<open>o[key] = v\<close> on an object created by \<^verbatim>\<open>{}\<close>: an existing property keeps its place,
  a new one goes last. The key \<^verbatim>\<open>__proto__\<close> is the inherited accessor: the assignment
  sets the prototype (or does nothing, for a primitive \<^verbatim>\<open>v\<close>) and adds no own property.
  \<open>assign\<close> is the assignment on a property list, \<open>set_prop\<close> on a property map.
\<close>

definition assign :: "'v obj \<Rightarrow> string \<Rightarrow> 'v \<Rightarrow> 'v obj" where
  "assign ob k v = (if k = ''__proto__'' then ob else AList.update k v ob)"

definition set_prop :: "(string \<rightharpoonup> 'v) \<Rightarrow> string \<Rightarrow> 'v \<Rightarrow> (string \<rightharpoonup> 'v)" where
  "set_prop own k v = (if k = ''__proto__'' then own else own(k \<mapsto> v))"

text \<open>The own property \<^verbatim>\<open>k\<close> of a value, \<^verbatim>\<open>undefined\<close> where there is none.\<close>

fun get_prop :: "jsval \<Rightarrow> string \<Rightarrow> jsval" where
  "get_prop (JObj fs) k = (case map_of fs k of None \<Rightarrow> JUndefined | Some v \<Rightarrow> v)"
| "get_prop _ k = JUndefined"

section \<open>seamless-immutable\<close>

text \<open>
  The Snapshot is an immutable object of the library seamless-immutable (its default,
  non-static build; of its two modes the production one, which leaves out the
  development-time checks). The library gives every immutable object its methods, and a
  tag, as own non-enumerable properties, re-defining whatever the object had under these
  names.
\<close>

definition immutable_method_names :: "string list" where
  "immutable_method_names =
     [''merge'', ''replace'', ''without'', ''asMutable'', ''set'', ''setIn'', ''update'',
      ''updateIn'', ''getIn'', ''__immutable_invariants_hold'']"

text \<open>
  A read of the immutable Snapshot: the methods first, then the entries, then what is
  inherited.
\<close>

definition read_immutable :: "(string \<rightharpoonup> 'v) \<Rightarrow> string \<Rightarrow> 'v lookup" where
  "read_immutable own key =
     (if key \<in> set immutable_method_names then Builtin else read_plain own key)"

text \<open>
  \<^verbatim>\<open>Immutable(v)\<close>, the immutable copy of a value: an object is cloned property by
  property, by assignment, and the clone is given the methods, so that of the fields of
  the datum those named like a method or the tag, and a field \<^verbatim>\<open>__proto__\<close>, are not
  fields of the copy; arrays are copied element by element. The library takes an object
  that owns the tag for an immutable one and does not copy it, and a field \<^verbatim>\<open>__proto__\<close>
  whose value is an object becomes the prototype of the clone: \<open>regular\<close> values are
  those without such fields, and on them \<open>immutable\<close> is exact.
\<close>

definition kept_field :: "string \<Rightarrow> bool" where
  "kept_field k = (k \<notin> set immutable_method_names \<and> k \<noteq> ''__proto__'')"

fun immutable :: "jsval \<Rightarrow> jsval"
  and immutable_fields :: "jsval obj \<Rightarrow> jsval obj"
  and immutable_elements :: "jsval list \<Rightarrow> jsval list" where
  "immutable (JObj fs) = JObj (immutable_fields fs)"
| "immutable (JArr xs) = JArr (immutable_elements xs)"
| "immutable JUndefined = JUndefined"
| "immutable JNull = JNull"
| "immutable (JBool b) = JBool b"
| "immutable (JNum n) = JNum n"
| "immutable (JStr s) = JStr s"
| "immutable_fields [] = []"
| "immutable_fields ((k, v) # rest) =
     (if kept_field k then (k, immutable v) # immutable_fields rest
      else immutable_fields rest)"
| "immutable_elements [] = []"
| "immutable_elements (x # xs) = immutable x # immutable_elements xs"

fun regular :: "jsval \<Rightarrow> bool"
  and regular_fields :: "jsval obj \<Rightarrow> bool"
  and regular_elements :: "jsval list \<Rightarrow> bool" where
  "regular (JObj fs) = regular_fields fs"
| "regular (JArr xs) = regular_elements xs"
| "regular JUndefined = True"
| "regular JNull = True"
| "regular (JBool b) = True"
| "regular (JNum n) = True"
| "regular (JStr s) = True"
| "regular_fields [] = True"
| "regular_fields ((k, v) # rest) =
     (k \<noteq> ''__immutable_invariants_hold'' \<and> k \<noteq> ''__proto__'' \<and> regular v
      \<and> regular_fields rest)"
| "regular_elements [] = True"
| "regular_elements (x # xs) = (regular x \<and> regular_elements xs)"

text \<open>
  \<^verbatim>\<open>Immutable#merge(other, {deep: true})\<close> visits every own key of \<^verbatim>\<open>other\<close>. The value
  stored under the key is the recursive merge of the current and the new value when both
  are mergeable (\<^verbatim>\<open>isMergableObject\<close>: a non-null object that is neither an array nor a
  date), and the new value otherwise. Keys of the receiver that \<^verbatim>\<open>other\<close> does not have
  are kept. A current value that is inherited is a function, which is not mergeable.
\<close>

fun isMergableObject :: "jsval \<Rightarrow> bool" where
  "isMergableObject (JObj fs) = True"
| "isMergableObject _ = False"

fun merge_val :: "jsval \<Rightarrow> jsval \<Rightarrow> jsval"
  and merge_fields :: "jsval obj \<Rightarrow> jsval obj \<Rightarrow> jsval obj" where
  "merge_val cur (JObj new) =
     (case cur of JObj fs \<Rightarrow> JObj (merge_fields fs new) | _ \<Rightarrow> JObj new)"
| "merge_val cur JUndefined = JUndefined"
| "merge_val cur JNull = JNull"
| "merge_val cur (JBool b) = JBool b"
| "merge_val cur (JNum n) = JNum n"
| "merge_val cur (JStr s) = JStr s"
| "merge_val cur (JArr xs) = JArr xs"
| "merge_fields fs [] = fs"
| "merge_fields fs ((k, v) # rest) =
     merge_fields
       (assign fs k (case map_of fs k of None \<Rightarrow> v | Some cur \<Rightarrow> merge_val cur v))
       rest"

section \<open>Cache entries\<close>

text \<open>
  \<^verbatim>\<open>CacheData\<close> is an object with a \<^verbatim>\<open>status\<close>, a \<^verbatim>\<open>data\<close> field (\<^verbatim>\<open>null\<close> or a
  datum) and an optional \<^verbatim>\<open>meta\<close> field; \<open>meta = None\<close> says the object has no own
  property \<^verbatim>\<open>meta\<close>.
\<close>

datatype status = Complete | Error

record entry =
  status :: status
  data :: jsval
  meta :: "jsval option"

fun status_string :: "status \<Rightarrow> string" where
  "status_string Complete = ''complete''"
| "status_string Error = ''error''"

text \<open>The entry as the object literal the source writes.\<close>

definition entry_object :: "entry \<Rightarrow> jsval" where
  "entry_object e =
     JObj ([(''status'', JStr (status_string (status e))), (''data'', data e)]
           @ (case meta e of None \<Rightarrow> [] | Some m \<Rightarrow> [(''meta'', m)]))"

text \<open>The immutable copy of an entry, and the entries whose data and metadata are regular.\<close>

definition immutable_entry :: "entry \<Rightarrow> entry" where
  "immutable_entry e =
     \<lparr> status = status e, data = immutable (data e), meta = map_option immutable (meta e) \<rparr>"


text \<open>
  The deep merge of a new entry into the entry already stored under its key: both are
  plain objects, so the merge descends into them. The status string is replaced, the data
  fields are merged as values, and the \<^verbatim>\<open>meta\<close> field of the old entry stays when the
  new entry has none.
\<close>

definition merge_entry :: "entry \<Rightarrow> entry \<Rightarrow> entry" where
  "merge_entry cur new =
     \<lparr> status = status new,
       data = merge_val (data cur) (data new),
       meta = (case meta new of
                 None \<Rightarrow> meta cur
               | Some m \<Rightarrow> Some (case meta cur of None \<Rightarrow> m | Some cm \<Rightarrow> merge_val cm m)) \<rparr>"

text \<open>
  The merge at the level of the cache object. \<^verbatim>\<open>addToResult\<close> makes the new entry
  immutable, reads the current value from the receiver (only an entry is mergeable; the
  methods and the inherited functions are not) and assigns the new value in the result.
  Then \<^verbatim>\<open>makeImmutableObject\<close> re-defines the methods on the result, and an entry that
  was assigned under the name of one of them is gone. \<^verbatim>\<open>toMerge\<close> never has an own
  property \<^verbatim>\<open>__proto__\<close>, since \<open>assign\<close> cannot make one.
\<close>

definition newValue :: "entry lookup \<Rightarrow> entry \<Rightarrow> entry" where
  "newValue currentValue immutableValue =
     (case currentValue of
        Value cur \<Rightarrow> merge_entry cur immutableValue
      | _ \<Rightarrow> immutableValue)"

fun addToResult ::
  "(string \<rightharpoonup> entry) \<Rightarrow> (string \<rightharpoonup> entry) \<Rightarrow> string \<times> entry \<Rightarrow> (string \<rightharpoonup> entry)" where
  "addToResult this result (key, v) =
     set_prop result key (newValue (read_immutable this key) (immutable_entry v))"

definition makeImmutableObject :: "(string \<rightharpoonup> entry) \<Rightarrow> (string \<rightharpoonup> entry)" where
  "makeImmutableObject result =
     (\<lambda>key. if key \<in> set immutable_method_names then None else result key)"

definition immutable_merge :: "(string \<rightharpoonup> entry) \<Rightarrow> entry obj \<Rightarrow> (string \<rightharpoonup> entry)" where
  "immutable_merge this other = makeImmutableObject (foldl (addToResult this) this other)"

section \<open>The cache object\<close>

text \<open>
  The two fields of the class that change: \<open>cache\<close> holds the entries of \<^verbatim>\<open>_cache\<close>, its
  own enumerable properties, and \<open>pending\<close> the own properties of \<^verbatim>\<open>pending\<close>.
\<close>

record lazy_cache =
  cache :: "string \<rightharpoonup> entry"
  pending :: "string \<rightharpoonup> bool"

definition init :: lazy_cache where
  "init = \<lparr> cache = Map.empty, pending = Map.empty \<rparr>"

definition updateCache :: "'a lazy_cache_scheme \<Rightarrow> entry obj \<Rightarrow> 'a lazy_cache_scheme" where
  "updateCache s toMerge =
     (if length (map fst toMerge) > 0
      then s\<lparr>cache := immutable_merge (cache s) toMerge\<rparr>
      else s)"

text \<open>
  \<^verbatim>\<open>this._cache[key] || null\<close>: the entry, or the method or inherited function found
  under the key, or \<^verbatim>\<open>null\<close>, which is \<open>Undefined\<close> here.
\<close>

definition peek :: "('q \<Rightarrow> string) \<Rightarrow> 'a lazy_cache_scheme \<Rightarrow> 'q \<Rightarrow> entry lookup" where
  "peek queryToKey s query = (let key = queryToKey query in read_immutable (cache s) key)"

text \<open>
  \<^verbatim>\<open>addData(data, meta?)\<close>: an omitted \<^verbatim>\<open>meta\<close> is \<^verbatim>\<open>undefined\<close>. The metadata goes
  into the key; the entry written is \<^verbatim>\<open>{status: "complete", data: datum}\<close>.
\<close>

definition addData ::
  "(jsval \<Rightarrow> jsval \<Rightarrow> string) \<Rightarrow> 'a lazy_cache_scheme \<Rightarrow> jsval list \<Rightarrow> jsval
     \<Rightarrow> 'a lazy_cache_scheme" where
  "addData dataToKey s ds m =
     updateCache s
       (foldl (\<lambda>toMerge datum.
                 assign toMerge (dataToKey datum m)
                   \<lparr> status = Complete, data = datum, meta = None \<rparr>)
              [] ds)"

text \<open>
  Truthiness of what a read gives: an entry, a function and an object are truthy, a flag
  is its value.
\<close>

fun truthy_entry :: "entry lookup \<Rightarrow> bool" where
  "truthy_entry Undefined = False"
| "truthy_entry (Value e) = True"
| "truthy_entry Builtin = True"

fun truthy_flag :: "bool lookup \<Rightarrow> bool" where
  "truthy_flag Undefined = False"
| "truthy_flag (Value b) = b"
| "truthy_flag Builtin = True"

text \<open>\<^verbatim>\<open>!cache[key] && !pending[key]\<close>.\<close>

definition getMissing :: "('q \<Rightarrow> string) \<Rightarrow> 'a lazy_cache_scheme \<Rightarrow> 'q list \<Rightarrow> 'q list" where
  "getMissing queryToKey s queries =
     filter (\<lambda>q. let key = queryToKey q
                 in \<not> truthy_entry (read_immutable (cache s) key)
                  \<and> \<not> truthy_flag (read_plain (pending s) key))
            queries"

definition markPending :: "('q \<Rightarrow> string) \<Rightarrow> 'a lazy_cache_scheme \<Rightarrow> 'q list \<Rightarrow> 'a lazy_cache_scheme" where
  "markPending queryToKey s queries =
     s\<lparr>pending := foldl (\<lambda>p query. set_prop p (queryToKey query) True) (pending s) queries\<rparr>"

definition unmarkPending :: "('q \<Rightarrow> string) \<Rightarrow> 'a lazy_cache_scheme \<Rightarrow> 'q list \<Rightarrow> 'a lazy_cache_scheme" where
  "unmarkPending queryToKey s queries =
     s\<lparr>pending := foldl (\<lambda>p query. set_prop p (queryToKey query) False) (pending s) queries\<rparr>"

definition markError :: "('q \<Rightarrow> string) \<Rightarrow> 'a lazy_cache_scheme \<Rightarrow> 'q list \<Rightarrow> 'a lazy_cache_scheme" where
  "markError queryToKey s queries =
     (let error = \<lparr> status = Error, data = JNull, meta = None \<rparr>
      in updateCache s
           (foldl (\<lambda>toMerge query. assign toMerge (queryToKey query) error) [] queries))"

subsection \<open>putData\<close>

datatype exn = TypeError

text \<open>
  \<^verbatim>\<open>data.hasOwnProperty("meta")\<close>: throws on \<^verbatim>\<open>null\<close> and \<^verbatim>\<open>undefined\<close>, and on an
  object whose own field \<^verbatim>\<open>hasOwnProperty\<close> hides the inherited function (no value of
  the model is a function); it is false on the other values that are not plain objects.
\<close>

fun isAugmentedData :: "jsval \<Rightarrow> exn + bool" where
  "isAugmentedData (JObj fs) =
     (if map_of fs ''hasOwnProperty'' \<noteq> None then Inl TypeError
      else Inr (map_of fs ''meta'' \<noteq> None))"
| "isAugmentedData JUndefined = Inl TypeError"
| "isAugmentedData JNull = Inl TypeError"
| "isAugmentedData _ = Inr False"

text \<open>What \<^verbatim>\<open>for (const x of v)\<close> runs through; a value that is not iterable throws.\<close>

fun iterate :: "jsval \<Rightarrow> exn + jsval list" where
  "iterate (JArr xs) = Inr xs"
| "iterate (JStr s) = Inr (map (\<lambda>c. JStr [c]) s)"
| "iterate _ = Inl TypeError"

text \<open>The two local objects of \<^verbatim>\<open>putData\<close>: \<^verbatim>\<open>toMerge\<close> and \<^verbatim>\<open>keyHasData\<close>.\<close>

type_synonym staging = "entry obj \<times> (string \<rightharpoonup> bool)"

definition stage :: "staging \<Rightarrow> string \<Rightarrow> entry \<Rightarrow> staging" where
  "stage st datumKey e = (assign (fst st) datumKey e, set_prop (snd st) datumKey True)"

definition putElement ::
  "(jsval \<Rightarrow> jsval \<Rightarrow> string) \<Rightarrow> staging \<Rightarrow> jsval \<Rightarrow> exn + staging" where
  "putElement dataToKey st dataElt =
     (case isAugmentedData dataElt of
        Inl err \<Rightarrow> Inl err
      | Inr True \<Rightarrow>
          (let m = get_prop dataElt ''meta''
           in case iterate (get_prop dataElt ''data'') of
                Inl err \<Rightarrow> Inl err
              | Inr ds \<Rightarrow>
                  Inr (foldl (\<lambda>st datum.
                                stage st (dataToKey datum m)
                                  \<lparr> status = Complete, data = datum, meta = Some m \<rparr>)
                             st ds))
      | Inr False \<Rightarrow>
          Inr (stage st (dataToKey dataElt JUndefined)
                 \<lparr> status = Complete, data = dataElt, meta = None \<rparr>))"

fun putElements ::
  "(jsval \<Rightarrow> jsval \<Rightarrow> string) \<Rightarrow> staging \<Rightarrow> jsval list \<Rightarrow> exn + staging" where
  "putElements dataToKey st [] = Inr st"
| "putElements dataToKey st (dataElt # rest) =
     (case putElement dataToKey st dataElt of
        Inl err \<Rightarrow> Inl err
      | Inr st' \<Rightarrow> putElements dataToKey st' rest)"

text \<open>The second loop: \<^verbatim>\<open>if (!keyHasData[queryKey])\<close>.\<close>

definition putAbsent :: "('q \<Rightarrow> string) \<Rightarrow> staging \<Rightarrow> 'q list \<Rightarrow> entry obj" where
  "putAbsent queryToKey st queries =
     foldl (\<lambda>toMerge query.
              let queryKey = queryToKey query
              in if \<not> truthy_flag (read_plain (snd st) queryKey)
                 then assign toMerge queryKey \<lparr> status = Complete, data = JNull, meta = None \<rparr>
                 else toMerge)
           (fst st) queries"

definition putData ::
  "('q \<Rightarrow> string) \<Rightarrow> (jsval \<Rightarrow> jsval \<Rightarrow> string) \<Rightarrow> 'a lazy_cache_scheme \<Rightarrow> 'q list \<Rightarrow> jsval list
     \<Rightarrow> exn + 'a lazy_cache_scheme" where
  "putData queryToKey dataToKey s queries result =
     (case putElements dataToKey ([], Map.empty) result of
        Inl err \<Rightarrow> Inl err
      | Inr st \<Rightarrow> Inr (updateCache s (putAbsent queryToKey st queries)))"

subsection \<open>populate\<close>

text \<open>
  \<^verbatim>\<open>populate\<close> is an async function with one \<^verbatim>\<open>await\<close>, on the promise of the fetch.
  \<open>populate_begin\<close> is the part that runs before it (\<open>None\<close>: the function returned at
  once, nothing was missing), \<open>populate_settle\<close> the part that runs when the promise
  settles, on whatever state the cache has by then. \<open>populate\<close> is the two run back to
  back, for a fetch during which nothing else touches the cache.
\<close>

datatype 'a promise = Fulfilled 'a | Rejected jsval

definition populate_begin ::
  "('q \<Rightarrow> string) \<Rightarrow> 'a lazy_cache_scheme \<Rightarrow> 'q list \<Rightarrow> 'a lazy_cache_scheme \<times> 'q list option" where
  "populate_begin queryToKey s queries =
     (let missing = getMissing queryToKey s queries
      in if length missing = 0 then (s, None)
         else (markPending queryToKey s missing, Some missing))"

definition populate_settle ::
  "('q \<Rightarrow> string) \<Rightarrow> (jsval \<Rightarrow> jsval \<Rightarrow> string) \<Rightarrow> 'a lazy_cache_scheme \<Rightarrow> 'q list
     \<Rightarrow> jsval list promise \<Rightarrow> 'a lazy_cache_scheme \<times> bool option promise" where
  "populate_settle queryToKey dataToKey s missing fetched =
     (let (s', r) =
        (case fetched of
           Fulfilled result \<Rightarrow>
             (case putData queryToKey dataToKey s missing result of
                Inr s' \<Rightarrow> (s', True)
              | Inl err \<Rightarrow> (markError queryToKey s missing, False))
         | Rejected err \<Rightarrow> (markError queryToKey s missing, False))
      in (unmarkPending queryToKey s' missing, Fulfilled (Some r)))"


section \<open>The debounced populate and the event loop\<close>

text \<open>
  Modelled from the spec: \<^verbatim>\<open>accumulatingDebounce\<close> (\<^verbatim>\<open>./accumulatingDebounce\<close>) is not
  among the sources. By the spec, the debounced function is idle (\<open>None\<close>) or
  accumulating (\<open>Some acc\<close>, its timer armed). A call seeds the accumulator with
  \<^verbatim>\<open>initAccumulator()\<close> when idle and merges its argument with \<^verbatim>\<open>accumulate\<close>; it never
  re-arms the timer. When the timer fires, the accumulator is handed to the flush
  function once and the debouncer is idle again.
\<close>

definition debounce_call ::
  "('acc \<Rightarrow> 'x \<Rightarrow> 'acc) \<Rightarrow> 'acc \<Rightarrow> 'acc option \<Rightarrow> 'x \<Rightarrow> 'acc option" where
  "debounce_call accumulate initAccumulator state x =
     Some (accumulate (case state of None \<Rightarrow> initAccumulator | Some acc \<Rightarrow> acc) x)"

text \<open>
  Modelled from the spec: the timer of \<^verbatim>\<open>accumulatingDebounce\<close> fires. The result is the
  new state, idle, and the accumulator to flush, if one was being built.
\<close>

definition debounce_fire :: "'acc option \<Rightarrow> 'acc option \<times> 'acc option" where
  "debounce_fire state = (None, state)"

text \<open>
  The callbacks the constructor gives to \<^verbatim>\<open>accumulatingDebounce\<close>. In
  \<^verbatim>\<open>queryMap[key] = newQuery\<close> the key \<^verbatim>\<open>__proto__\<close> adds no own property, so that
  query is not among those flushed.
\<close>

definition accumulate :: "('q \<Rightarrow> string) \<Rightarrow> 'q obj \<Rightarrow> 'q \<Rightarrow> 'q obj" where
  "accumulate queryToKey queryMap newQuery = assign queryMap (queryToKey newQuery) newQuery"

text \<open>
  \<^verbatim>\<open>Object.keys(queryMap).map(k=>queryMap[k])\<close>. The keys come in insertion order here;
  JavaScript puts integer-like keys first, and no statement below depends on the order.
\<close>

definition object_keys :: "'v obj \<Rightarrow> string list" where
  "object_keys ob = map fst ob"

definition flush_queries :: "'q obj \<Rightarrow> 'q list" where
  "flush_queries queryMap = List.map_filter (map_of queryMap) (object_keys queryMap)"

text \<open>
  The cache in its environment: the debouncer's state, the \<^verbatim>\<open>populate\<close> calls suspended
  at their \<^verbatim>\<open>await\<close> (each with its \<^verbatim>\<open>missing\<close> list), and two logs, of the batches
  flushed to \<^verbatim>\<open>populate\<close> and of the argument lists the fetch collaborator was called
  with. JavaScript runs each of the events below to completion before the next.
\<close>

record 'q world = lazy_cache +
  queryMap :: "'q obj option"
  inflight :: "'q list list"
  flushed :: "'q list list"
  fetch_calls :: "'q list list"

definition new_cache :: "'q world" where
  "new_cache = \<lparr> cache = Map.empty, pending = Map.empty, queryMap = None, inflight = [],
                 flushed = [], fetch_calls = [] \<rparr>"

datatype 'q event =
    Get 'q
  | TimerFires
  | AddData "jsval list" jsval
  | FetchSettles nat "jsval list promise"

definition flush :: "('q \<Rightarrow> string) \<Rightarrow> 'q world \<Rightarrow> 'q obj \<Rightarrow> 'q world" where
  "flush queryToKey w acc =
     (let queries = flush_queries acc;
          w1 = w\<lparr>flushed := flushed w @ [queries]\<rparr>
      in case populate_begin queryToKey w1 queries of
           (w2, None) \<Rightarrow> w2
         | (w2, Some missing) \<Rightarrow>
             w2\<lparr>inflight := inflight w2 @ [missing], fetch_calls := fetch_calls w2 @ [missing]\<rparr>)"

fun step ::
  "('q \<Rightarrow> string) \<Rightarrow> (jsval \<Rightarrow> jsval \<Rightarrow> string) \<Rightarrow> 'q world \<Rightarrow> 'q event \<Rightarrow> 'q world" where
  "step queryToKey dataToKey w (Get query) =
     w\<lparr>queryMap := debounce_call (accumulate queryToKey) [] (queryMap w) query\<rparr>"
| "step queryToKey dataToKey w TimerFires =
     (case debounce_fire (queryMap w) of
        (idle, None) \<Rightarrow> w
      | (idle, Some acc) \<Rightarrow> flush queryToKey (w\<lparr>queryMap := idle\<rparr>) acc)"
| "step queryToKey dataToKey w (AddData ds m) = addData dataToKey w ds m"
| "step queryToKey dataToKey w (FetchSettles i fetched) =
     (if i < length (inflight w)
      then fst (populate_settle queryToKey dataToKey
                  (w\<lparr>inflight := take i (inflight w) @ drop (Suc i) (inflight w)\<rparr>)
                  (inflight w ! i) fetched)
      else w)"

definition run ::
  "('q \<Rightarrow> string) \<Rightarrow> (jsval \<Rightarrow> jsval \<Rightarrow> string) \<Rightarrow> 'q world \<Rightarrow> 'q event list \<Rightarrow> 'q world" where
  "run queryToKey dataToKey w events = foldl (step queryToKey dataToKey) w events"

section \<open>Auxiliary notions for the statements\<close>

text \<open>
  A key codec for the examples: a string is its own key, an object has the key in its
  field \<^verbatim>\<open>id\<close>.
\<close>

definition string_key :: "jsval \<Rightarrow> jsval \<Rightarrow> string" where
  "string_key d m =
     (case d of
        JStr s \<Rightarrow> s
      | JObj fs \<Rightarrow> (case map_of fs ''id'' of Some (JStr s) \<Rightarrow> s | _ \<Rightarrow> [])
      | _ \<Rightarrow> [])"

text \<open>
  The keys that read as \<^verbatim>\<open>undefined\<close> in an object without own properties: neither the
  name of a method of the immutable Snapshot nor a name inherited from
  \<^verbatim>\<open>Object.prototype\<close>.
\<close>

definition ordinary_key :: "string \<Rightarrow> bool" where
  "ordinary_key k = (k \<notin> set immutable_method_names \<and> k \<notin> set object_prototype_names)"

text \<open>An object built by assignments alone: its keys are distinct and none is \<^verbatim>\<open>__proto__\<close>.\<close>

definition assigned :: "'v obj \<Rightarrow> bool" where
  "assigned ob = (distinct (map fst ob) \<and> ''__proto__'' \<notin> fst ` set ob)"

text \<open>
  The entry the Snapshot holds under a key after an entry has been merged over what the
  key held.
\<close>

definition stored_over :: "entry option \<Rightarrow> entry \<Rightarrow> entry" where
  "stored_over old e =
     (case old of
        None \<Rightarrow> immutable_entry e
      | Some cur \<Rightarrow> merge_entry cur (immutable_entry e))"

text \<open>An error entry has \<^verbatim>\<open>null\<close> data.\<close>

definition error_null :: "(string \<rightharpoonup> entry) \<Rightarrow> bool" where
  "error_null c = (\<forall>k e. c k = Some e \<longrightarrow> status e = Error \<longrightarrow> data e = JNull)"

text \<open>
  Two facts of every state the cache reaches: the Snapshot has no entry under the name of
  one of its methods, and the keys of the batches in flight are ordinary.
\<close>

definition no_method_entries :: "(string \<rightharpoonup> entry) \<Rightarrow> bool" where
  "no_method_entries c = (\<forall>k \<in> set immutable_method_names. c k = None)"

definition batches_ordinary :: "('q \<Rightarrow> string) \<Rightarrow> 'q list list \<Rightarrow> bool" where
  "batches_ordinary queryToKey batches =
     (\<forall>batch \<in> set batches. \<forall>q \<in> set batch. ordinary_key (queryToKey q))"

text \<open>
  A fetch result element of one of the two shapes of \<^verbatim>\<open>FetchResult\<close> on which the merge
  does not throw: an object with a \<^verbatim>\<open>meta\<close> field whose \<^verbatim>\<open>data\<close> field is an array, or
  a flat datum that is neither \<^verbatim>\<open>null\<close> nor \<^verbatim>\<open>undefined\<close> and has no \<^verbatim>\<open>meta\<close> field
  of its own; and no object with a field \<^verbatim>\<open>hasOwnProperty\<close>.
\<close>

definition element_ok :: "jsval \<Rightarrow> bool" where
  "element_ok elt =
     (case elt of
        JUndefined \<Rightarrow> False
      | JNull \<Rightarrow> False
      | JObj fs \<Rightarrow>
          map_of fs ''hasOwnProperty'' = None
          \<and> (case map_of fs ''meta'' of
               None \<Rightarrow> True
             | Some m \<Rightarrow> (case map_of fs ''data'' of Some (JArr items) \<Rightarrow> True | _ \<Rightarrow> False))
      | _ \<Rightarrow> True)"

text \<open>
  The entries to stage for one element and for a whole fetch result, following the spec's
  words (section 4.5): an element that carries a \<^verbatim>\<open>meta\<close> field is an augmented group,
  and each of its data items is staged as a complete entry with the group's metadata
  under \<^verbatim>\<open>dataToKey(item, meta)\<close>; any other element is a flat datum, staged as a complete
  entry without metadata under \<^verbatim>\<open>dataToKey(item)\<close>.
\<close>

definition has_meta :: "jsval \<Rightarrow> bool" where
  "has_meta elt = (case elt of JObj fs \<Rightarrow> map_of fs ''meta'' \<noteq> None | _ \<Rightarrow> False)"

definition spec_element_entries :: "(jsval \<Rightarrow> jsval \<Rightarrow> string) \<Rightarrow> jsval \<Rightarrow> (string \<times> entry) list" where
  "spec_element_entries dataToKey elt =
     (if has_meta elt
      then (case iterate (get_prop elt ''data'') of
              Inr items \<Rightarrow>
                map (\<lambda>item. (dataToKey item (get_prop elt ''meta''),
                             \<lparr> status = Complete, data = item, meta = Some (get_prop elt ''meta'') \<rparr>))
                    items
            | Inl err \<Rightarrow> [])
      else [(dataToKey elt JUndefined, \<lparr> status = Complete, data = elt, meta = None \<rparr>)])"

definition spec_result_entries :: "(jsval \<Rightarrow> jsval \<Rightarrow> string) \<Rightarrow> jsval list \<Rightarrow> (string \<times> entry) list" where
  "spec_result_entries dataToKey result = concat (map (spec_element_entries dataToKey) result)"

text \<open>Staging a list of entries one after the other.\<close>

definition stage_all :: "staging \<Rightarrow> (string \<times> entry) list \<Rightarrow> staging" where
  "stage_all st kes = foldl (\<lambda>st (k, e). stage st k e) st kes"

text \<open>
  Membership in the PendingSet: the key is awaiting a fetch. \<^verbatim>\<open>unmarkPending\<close> leaves the
  key in the object with the value \<^verbatim>\<open>false\<close>, which is not awaiting.
\<close>

definition is_pending :: "'a lazy_cache_scheme \<Rightarrow> string \<Rightarrow> bool" where
  "is_pending s key = (pending s key = Some True)"

text \<open>
  The events of a debounce window, between the idle debouncer and the firing of its
  timer, are the events other than that firing; \<open>gets\<close> are the queries of the \<^verbatim>\<open>get\<close>
  calls among them.
\<close>

fun is_timer :: "'q event \<Rightarrow> bool" where
  "is_timer TimerFires = True"
| "is_timer _ = False"

fun gets :: "'q event list \<Rightarrow> 'q list" where
  "gets [] = []"
| "gets (Get q # events) = q # gets events"
| "gets (ev # events) = gets events"

section \<open>Properties of the merge\<close>



lemma merge_entry_is_object_merge:
  "merge_val (entry_object cur) (entry_object new) = entry_object (merge_entry cur new)"
  by (cases "status new"; cases "meta new"; cases "meta cur")
     (simp_all add: entry_object_def merge_entry_def assign_def)

lemma immutable_entry_is_object_copy:
  "immutable (entry_object e) = entry_object (immutable_entry e)"
  by (cases "meta e")
     (simp_all add: entry_object_def immutable_entry_def kept_field_def immutable_method_names_def)

lemma map_of_assign: "map_of (assign ob k v) = set_prop (map_of ob) k v"
  by (simp add: assign_def set_prop_def update_conv')

lemma assigned_Nil [simp]: "assigned []"
  by (simp add: assigned_def)

lemma assigned_assign: "assigned ob \<Longrightarrow> assigned (assign ob k v)"
  by (auto simp: assigned_def assign_def distinct_update dom_update)

lemma keys_assign:
  "fst ` set (assign ob k v) = (if k = ''__proto__'' then fst ` set ob else insert k (fst ` set ob))"
  by (simp add: assign_def dom_update)

lemma assigned_map_of_proto: "assigned ob \<Longrightarrow> map_of ob ''__proto__'' = None"
  by (simp add: assigned_def map_of_eq_None_iff)

lemma map_of_rev_distinct:
  "distinct (map fst xs) \<Longrightarrow> map_of (rev xs) = map_of xs"
  by (simp add: map_of_inject_set distinct_rev rev_map[symmetric])

lemma newValue_read:
  "k \<notin> set immutable_method_names \<Longrightarrow>
   newValue (read_immutable c k) (immutable_entry e) = stored_over (c k) e"
  by (simp add: newValue_def read_immutable_def read_plain_def stored_over_def split: option.splits)

lemma immutable_merge_fold:
  "''__proto__'' \<notin> fst ` set other \<Longrightarrow>
   foldl (addToResult this) acc other k =
     (case map_of (rev other) k of
        None \<Rightarrow> acc k
      | Some e \<Rightarrow> Some (newValue (read_immutable this k) (immutable_entry e)))"
proof (induction other arbitrary: acc)
  case Nil
  show ?case by simp
next
  case (Cons x xs)
  obtain key v where x: "x = (key, v)" by (cases x)
  from Cons.prems x have k: "key \<noteq> ''__proto__''" and r: "''__proto__'' \<notin> fst ` set xs"
    by auto
  show ?case
    using k by (simp add: x Cons.IH[OF r] map_add_def set_prop_def split: option.splits)
qed

lemma immutable_merge_lookup:
  "assigned other \<Longrightarrow>
   immutable_merge this other k =
     (if k \<in> set immutable_method_names then None
      else case map_of other k of
             None \<Rightarrow> this k
           | Some e \<Rightarrow> Some (stored_over (this k) e))"
  by (simp add: immutable_merge_def makeImmutableObject_def immutable_merge_fold assigned_def
        map_of_rev_distinct newValue_read split: option.splits)

lemma updateCache_lookup:
  "assigned toMerge \<Longrightarrow>
   cache (updateCache s toMerge) k =
     (if toMerge = [] then cache s k
      else if k \<in> set immutable_method_names then None
      else case map_of toMerge k of
             None \<Rightarrow> cache s k
           | Some e \<Rightarrow> Some (stored_over (cache s k) e))"
  by (cases toMerge) (simp_all add: updateCache_def immutable_merge_lookup)

lemma updateCache_pending [simp]: "pending (updateCache s toMerge) = pending s"
  by (simp add: updateCache_def)

lemma updateCache_no_method_entries:
  "no_method_entries (cache s) \<Longrightarrow> no_method_entries (cache (updateCache s toMerge))"
  by (simp add: updateCache_def immutable_merge_def makeImmutableObject_def no_method_entries_def)


lemma stored_over_status [simp]: "status (stored_over old e) = status e"
  by (simp add: stored_over_def merge_entry_def immutable_entry_def split: option.splits)

lemma stored_over_null:
  "data e = JNull \<Longrightarrow> data (stored_over old e) = JNull"
  by (simp add: stored_over_def merge_entry_def immutable_entry_def split: option.splits)

lemma stored_over_None_plain:
  "data e = JNull \<Longrightarrow> meta e = None \<Longrightarrow> stored_over None e = e"
  by (simp add: stored_over_def immutable_entry_def)

lemma stored_over_meta_None:
  "meta e = None \<Longrightarrow>
   meta (stored_over old e) = (case old of None \<Rightarrow> None | Some cur \<Rightarrow> meta cur)"
  by (simp add: stored_over_def merge_entry_def immutable_entry_def split: option.splits)

lemma updateCache_lookup_kept:
  "assigned toMerge \<Longrightarrow> k \<notin> set immutable_method_names \<Longrightarrow>
   cache (updateCache s toMerge) k =
     (case map_of toMerge k of
        None \<Rightarrow> cache s k
      | Some e \<Rightarrow> Some (stored_over (cache s k) e))"
  by (cases toMerge) (simp_all add: updateCache_lookup)

lemma isMergableObject_immutable [simp]: "isMergableObject (immutable v) = isMergableObject v"
  by (cases v) simp_all

section \<open>updateCache\<close>




section \<open>Properties of the operations\<close>

lemma foldl_assign_map_of:
  "map_of (foldl (\<lambda>tm x. assign tm (f x) (g x)) tm0 xs) k
     = (if k = ''__proto__'' then map_of tm0 k
        else (map_of tm0 ++ map_of (rev (map (\<lambda>x. (f x, g x)) xs))) k)"
  by (induction xs rule: rev_induct) (auto simp: map_of_assign set_prop_def map_add_def)

lemma foldl_assign_assigned:
  "assigned tm0 \<Longrightarrow> assigned (foldl (\<lambda>tm x. assign tm (f x) (g x)) tm0 xs)"
  by (induction xs arbitrary: tm0) (simp_all add: assigned_assign)

lemma map_of_rev_const:
  "map_of (rev (map (\<lambda>x. (f x, c)) xs)) k = (if k \<in> f ` set xs then Some c else None)"
  by (induction xs) (auto simp: map_add_def split: option.splits)


lemma ordinary_key_kept: "ordinary_key k \<Longrightarrow> kept_field k"
  by (auto simp: ordinary_key_def kept_field_def object_prototype_names_def)

lemma ordinary_key_no_method: "ordinary_key k \<Longrightarrow> k \<notin> set immutable_method_names"
  by (simp add: ordinary_key_def)

lemma ordinary_key_not_proto: "ordinary_key k \<Longrightarrow> k \<noteq> ''__proto__''"
  by (auto simp: ordinary_key_def object_prototype_names_def)

lemma getMissing_filter:
  "getMissing qk s queries
     = filter (\<lambda>q. ordinary_key (qk q) \<and> cache s (qk q) = None \<and> \<not> is_pending s (qk q)) queries"
proof -
  have "(\<not> truthy_entry (read_immutable c k) \<and> \<not> truthy_flag (read_plain p k))
          = (ordinary_key k \<and> c k = None \<and> p k \<noteq> Some True)" for c :: "string \<rightharpoonup> entry" and p k
    by (auto simp: read_immutable_def read_plain_def ordinary_key_def split: option.splits)
  then show ?thesis
    by (simp add: getMissing_def is_pending_def Let_def)
qed

lemma getMissing_member:
  "q \<in> set (getMissing qk s queries) \<Longrightarrow>
   q \<in> set queries \<and> ordinary_key (qk q) \<and> cache s (qk q) = None \<and> pending s (qk q) \<noteq> Some True"
  by (simp add: getMissing_filter is_pending_def)

lemma markError_entry:
  assumes "q \<in> set qs" and "kept_field (qk q)"
  shows "cache (markError qk s qs) (qk q)
     = Some \<lparr> status = Error, data = JNull,
              meta = (case cache s (qk q) of None \<Rightarrow> None | Some cur \<Rightarrow> meta cur) \<rparr>"
proof -
  let ?err = "\<lparr> status = Error, data = JNull, meta = None \<rparr>"
  let ?tm = "foldl (\<lambda>toMerge query. assign toMerge (qk query) ?err) [] qs"
  have a: "assigned ?tm" by (simp add: foldl_assign_assigned)
  have m: "map_of ?tm (qk q) = Some ?err"
    using assms by (simp add: foldl_assign_map_of map_of_rev_const kept_field_def)
  have "cache (markError qk s qs) (qk q) = Some (stored_over (cache s (qk q)) ?err)"
    using assms(2) m by (simp add: markError_def updateCache_lookup_kept[OF a] kept_field_def)
  then show ?thesis
    by (simp add: stored_over_def merge_entry_def immutable_entry_def split: option.splits)
qed


lemma markError_pending [simp]: "pending (markError qk s qs) = pending s"
  by (simp add: markError_def)


lemma unmarkPending_cache [simp]: "cache (unmarkPending qk s qs) = cache s"
  by (simp add: unmarkPending_def)


lemma markPending_cache [simp]: "cache (markPending qk s qs) = cache s"
  by (simp add: markPending_def)

lemma updateCache_error_null:
  assumes "assigned tm"
    and "\<And>k e. map_of tm k = Some e \<Longrightarrow> status e = Error \<Longrightarrow> data e = JNull"
    and "error_null (cache s)"
  shows "error_null (cache (updateCache s tm))"
  using assms
  by (auto simp: error_null_def updateCache_lookup[OF assms(1)] stored_over_def merge_entry_def
          immutable_entry_def split: option.splits if_splits)

lemma updateCache_mono:
  assumes "assigned tm" and "no_method_entries (cache s)" and "cache s k \<noteq> None"
  shows "cache (updateCache s tm) k \<noteq> None"
proof -
  from assms(2,3) have "k \<notin> set immutable_method_names"
    by (auto simp: no_method_entries_def)
  then show ?thesis
    using assms(3) by (simp add: updateCache_lookup_kept[OF assms(1)] split: option.splits)
qed

lemma stage_all_simps [simp]:
  "stage_all st [] = st"
  "stage_all st ((k, e) # kes) = stage_all (stage st k e) kes"
  "stage_all st (xs @ ys) = stage_all (stage_all st xs) ys"
  by (simp_all add: stage_all_def)

lemma stage_all_map:
  "foldl (\<lambda>st x. stage st (f x) (g x)) st xs = stage_all st (map (\<lambda>x. (f x, g x)) xs)"
  by (induction xs arbitrary: st) simp_all

lemma isAugmentedData_has_meta: "isAugmentedData elt = Inr b \<Longrightarrow> b = has_meta elt"
  by (cases elt) (auto simp: has_meta_def split: if_splits)

lemma putElement_Inr:
  assumes "putElement dk st elt = Inr st'"
  shows "st' = stage_all st (spec_element_entries dk elt)"
proof (cases "isAugmentedData elt")
  case (Inl err)
  with assms show ?thesis by (simp add: putElement_def)
next
  case (Inr b)
  then have b: "b = has_meta elt" by (rule isAugmentedData_has_meta)
  show ?thesis
  proof (cases b)
    case False
    with Inr assms b show ?thesis
      by (simp add: putElement_def spec_element_entries_def)
  next
    case True
    with Inr assms b show ?thesis
      by (auto simp: putElement_def spec_element_entries_def stage_all_map Let_def
               split: sum.splits)
  qed
qed

lemma putElements_Inr:
  "putElements dk st result = Inr st' \<Longrightarrow> st' = stage_all st (spec_result_entries dk result)"
proof (induction result arbitrary: st)
  case Nil
  then show ?case by (simp add: spec_result_entries_def)
next
  case (Cons elt rest)
  from Cons.prems obtain st1 where 1: "putElement dk st elt = Inr st1"
    and 2: "putElements dk st1 rest = Inr st'"
    by (auto split: sum.splits)
  from putElement_Inr[OF 1] Cons.IH[OF 2] show ?case
    by (simp add: spec_result_entries_def)
qed

lemma putElement_ok:
  "element_ok elt \<Longrightarrow>
   putElement dk st elt = Inr (stage_all st (spec_element_entries dk elt))"
  by (cases elt)
     (auto simp: element_ok_def putElement_def spec_element_entries_def has_meta_def stage_all_map
           split: option.splits jsval.splits)

lemma putElements_ok:
  "list_all element_ok result \<Longrightarrow>
   putElements dk st result = Inr (stage_all st (spec_result_entries dk result))"
  by (induction result arbitrary: st)
     (simp_all add: spec_result_entries_def putElement_ok)

lemma spec_result_entries_Complete:
  "(k, e) \<in> set (spec_result_entries dk result) \<Longrightarrow> status e = Complete"
  by (auto simp: spec_result_entries_def spec_element_entries_def split: if_splits sum.splits)

lemma stage_all_map_of:
  "map_of (fst (stage_all st kes)) k
     = (if k = ''__proto__'' then map_of (fst st) k
        else (map_of (fst st) ++ map_of (rev kes)) k)"
  by (induction kes rule: rev_induct) (auto simp: stage_def map_of_assign set_prop_def map_add_def)

lemma stage_all_assigned:
  "assigned (fst st) \<Longrightarrow> assigned (fst (stage_all st kes))"
  by (induction kes arbitrary: st) (auto simp: stage_def assigned_assign)

lemma stage_all_keyHasData:
  "snd (stage_all st kes) k
     = (if k \<in> fst ` set kes \<and> k \<noteq> ''__proto__'' then Some True else snd st k)"
  by (induction kes arbitrary: st) (force simp: stage_def set_prop_def)+

lemma stage_all_keys:
  "fst ` set (fst (stage_all st kes)) = fst ` set (fst st) \<union> (fst ` set kes - {''__proto__''})"
proof (induction kes rule: rev_induct)
  case Nil
  show ?case by simp
next
  case (snoc ke kes)
  obtain k e where ke: "ke = (k, e)" by (cases ke)
  have "fst ` set (fst (stage_all st (kes @ [ke])))
          = (if k = ''__proto__'' then fst ` set (fst (stage_all st kes))
             else insert k (fst ` set (fst (stage_all st kes))))"
    by (simp add: ke stage_def keys_assign)
  also have "\<dots> = fst ` set (fst st) \<union> (fst ` set (kes @ [ke]) - {''__proto__''})"
    unfolding snoc.IH by (simp add: ke) blast
  finally show ?case .
qed

lemma putAbsent_map_of:
  "map_of (putAbsent qk (tm, khd) qs) k =
     (if k \<in> qk ` set qs \<and> k \<noteq> ''__proto__'' \<and> \<not> truthy_flag (read_plain khd k)
      then Some \<lparr> status = Complete, data = JNull, meta = None \<rparr>
      else map_of tm k)"
  unfolding putAbsent_def
  by (induction qs arbitrary: tm) (auto simp: map_of_assign set_prop_def Let_def)

lemma putAbsent_assigned:
  "assigned tm \<Longrightarrow> assigned (putAbsent qk (tm, khd) qs)"
  unfolding putAbsent_def
  by (induction qs arbitrary: tm) (auto simp: assigned_assign Let_def)

lemma updateCache_cache:
  "cache (updateCache s tm) = (if tm = [] then cache s else immutable_merge (cache s) tm)"
  by (cases tm) (simp_all add: updateCache_def)

lemma updateCache_fields [simp]:
  "queryMap (updateCache w tm) = queryMap w"
  "inflight (updateCache w tm) = inflight w"
  "flushed (updateCache w tm) = flushed w"
  "fetch_calls (updateCache w tm) = fetch_calls w"
  by (simp_all add: updateCache_def)

lemma unmarkPending_fields [simp]:
  "queryMap (unmarkPending qk w qs) = queryMap w"
  "inflight (unmarkPending qk w qs) = inflight w"
  "flushed (unmarkPending qk w qs) = flushed w"
  "fetch_calls (unmarkPending qk w qs) = fetch_calls w"
  by (simp_all add: unmarkPending_def)

lemma markPending_fields [simp]:
  "queryMap (markPending qk w qs) = queryMap w"
  "inflight (markPending qk w qs) = inflight w"
  "flushed (markPending qk w qs) = flushed w"
  "fetch_calls (markPending qk w qs) = fetch_calls w"
  by (simp_all add: markPending_def)

lemma putData_Inr:
  assumes "putData qk dk s qs result = Inr s'"
  shows "\<exists>tm. s' = updateCache s tm \<and> assigned tm
            \<and> (\<forall>k e. map_of tm k = Some e \<longrightarrow> status e = Complete)"
proof -
  let ?kes = "spec_result_entries dk result"
  from assms obtain st where st: "putElements dk ([], Map.empty) result = Inr st"
    and s': "s' = updateCache s (putAbsent qk st qs)"
    by (auto simp: putData_def split: sum.splits)
  obtain tm khd where sa: "stage_all ([], Map.empty) ?kes = (tm, khd)"
    by (cases "stage_all ([], Map.empty) ?kes")
  then have p: "st = (tm, khd)" using putElements_Inr[OF st] by simp
  have d: "assigned tm"
    using stage_all_assigned[of "([], Map.empty)" ?kes] sa by simp
  have m: "status e = Complete" if "map_of tm k = Some e" for k e
  proof -
    from that have "map_of (rev ?kes) k = Some e"
      using stage_all_map_of[of "([], Map.empty)" ?kes k] sa by (simp split: if_splits)
    then have "(k, e) \<in> set ?kes" by (auto dest: map_of_SomeD)
    then show ?thesis by (rule spec_result_entries_Complete)
  qed
  have "assigned (putAbsent qk st qs)"
    using d p by (simp add: putAbsent_assigned)
  moreover have "\<forall>k e. map_of (putAbsent qk st qs) k = Some e \<longrightarrow> status e = Complete"
    using m p by (auto simp: putAbsent_map_of split: if_splits)
  ultimately show ?thesis using s' by blast
qed

lemma putData_staged:
  assumes "putData qk dk s queries result = Inr s'"
    and "k \<notin> set immutable_method_names" and "k \<noteq> ''__proto__''"
  shows "cache s' k =
           (case map_of (rev (spec_result_entries dk result)) k of
              Some e \<Rightarrow> Some (stored_over (cache s k) e)
            | None \<Rightarrow>
                if k \<in> qk ` set queries \<and> k \<notin> set object_prototype_names
                then Some (stored_over (cache s k) \<lparr> status = Complete, data = JNull, meta = None \<rparr>)
                else cache s k)"
proof -
  let ?kes = "spec_result_entries dk result"
  from assms(1) obtain st where st: "putElements dk ([], Map.empty) result = Inr st"
    and s': "s' = updateCache s (putAbsent qk st queries)"
    by (auto simp: putData_def split: sum.splits)
  obtain tm khd where sa: "stage_all ([], Map.empty) ?kes = (tm, khd)"
    by (cases "stage_all ([], Map.empty) ?kes")
  then have p: "st = (tm, khd)" using putElements_Inr[OF st] by simp
  have d: "assigned tm"
    using stage_all_assigned[of "([], Map.empty)" ?kes] sa by simp
  have m: "map_of tm k = map_of (rev ?kes) k"
    using stage_all_map_of[of "([], Map.empty)" ?kes k] sa assms(3) by simp
  have h: "khd k = (if map_of (rev ?kes) k \<noteq> None then Some True else None)"
    using stage_all_keyHasData[of "([], Map.empty)" ?kes k] sa assms(3)
    by (simp add: map_of_eq_None_iff)
  have a: "assigned (putAbsent qk (tm, khd) queries)"
    using d by (rule putAbsent_assigned)
  show ?thesis
    unfolding s' p
    using assms(2,3) m h
    by (auto simp: updateCache_lookup_kept[OF a] putAbsent_map_of read_plain_def
             split: option.splits)
qed

lemma addData_staged:
  "\<exists>tm. addData dk s ds m = updateCache s tm \<and> assigned tm
        \<and> (\<forall>k e. map_of tm k = Some e \<longrightarrow> status e = Complete)"
proof -
  let ?tm = "foldl (\<lambda>toMerge datum. assign toMerge (dk datum m)
                 \<lparr> status = Complete, data = datum, meta = None \<rparr>) [] ds"
  have "assigned ?tm" by (simp add: foldl_assign_assigned)
  moreover have "map_of ?tm k = Some e \<Longrightarrow> status e = Complete" for k e
    by (auto simp: foldl_assign_map_of split: if_splits dest!: map_of_SomeD)
  ultimately show ?thesis
    unfolding addData_def by blast
qed

lemma markError_staged:
  "\<exists>tm. markError qk s qs = updateCache s tm \<and> assigned tm
        \<and> (\<forall>k e. map_of tm k = Some e \<longrightarrow> data e = JNull)"
proof -
  let ?tm = "foldl (\<lambda>toMerge query. assign toMerge (qk query)
                 \<lparr> status = Error, data = JNull, meta = None \<rparr>) [] qs"
  have "assigned ?tm" by (simp add: foldl_assign_assigned)
  moreover have "map_of ?tm k = Some e \<Longrightarrow> data e = JNull" for k e
    by (auto simp: foldl_assign_map_of split: if_splits dest!: map_of_SomeD)
  ultimately show ?thesis
    unfolding markError_def by (simp add: Let_def) blast
qed

lemma populate_settle_update:
  "\<exists>tm. assigned tm
      \<and> (\<forall>k e. map_of tm k = Some e \<longrightarrow> status e = Error \<longrightarrow> data e = JNull)
      \<and> fst (populate_settle qk dk s missing fetched) = unmarkPending qk (updateCache s tm) missing"
proof -
  from markError_staged[of qk s missing] obtain tme where
    e: "markError qk s missing = updateCache s tme" "assigned tme"
       "\<forall>k e. map_of tme k = Some e \<longrightarrow> data e = JNull" by blast
  show ?thesis
  proof (cases fetched)
    case (Rejected err)
    then show ?thesis using e by (auto simp: populate_settle_def)
  next
    case (Fulfilled result)
    show ?thesis
    proof (cases "putData qk dk s missing result")
      case (Inl err)
      then show ?thesis using Fulfilled e by (auto simp: populate_settle_def)
    next
      case (Inr s')
      from putData_Inr[OF Inr] obtain tm where "s' = updateCache s tm" "assigned tm"
        "\<forall>k e. map_of tm k = Some e \<longrightarrow> status e = Complete" by blast
      then show ?thesis using Fulfilled Inr
        by (intro exI[of _ tm]) (auto simp: populate_settle_def)
    qed
  qed
qed

lemma populate_begin_cache [simp]: "cache (fst (populate_begin qk s qs)) = cache s"
  by (simp add: populate_begin_def Let_def)

lemma flush_cache [simp]: "cache (flush qk w acc) = cache w"
  by (simp add: flush_def populate_begin_def Let_def)

lemma step_cache:
  "\<exists>tm. assigned tm
      \<and> (\<forall>k e. map_of tm k = Some e \<longrightarrow> status e = Error \<longrightarrow> data e = JNull)
      \<and> cache (step qk dk w ev) = cache (updateCache w tm)"
proof (cases ev)
  case (Get q)
  then show ?thesis by (intro exI[of _ "[]"]) (simp add: updateCache_def)
next
  case TimerFires
  then show ?thesis
    by (intro exI[of _ "[]"]) (simp add: updateCache_def debounce_fire_def split: option.splits)
next
  case (AddData ds m)
  from addData_staged[of dk w ds m] obtain tm where
    "addData dk w ds m = updateCache w tm" "assigned tm"
    "\<forall>k e. map_of tm k = Some e \<longrightarrow> status e = Complete" by blast
  then show ?thesis using AddData by (intro exI[of _ tm]) auto
next
  case (FetchSettles i fetched)
  show ?thesis
  proof (cases "i < length (inflight w)")
    case False
    then show ?thesis using FetchSettles
      by (intro exI[of _ "[]"]) (simp add: updateCache_def)
  next
    case True
    let ?w = "w\<lparr>inflight := take i (inflight w) @ drop (Suc i) (inflight w)\<rparr>"
    from populate_settle_update[of qk dk ?w "inflight w ! i" fetched] obtain tm where
      t: "assigned tm"
         "\<forall>k e. map_of tm k = Some e \<longrightarrow> status e = Error \<longrightarrow> data e = JNull"
         "fst (populate_settle qk dk ?w (inflight w ! i) fetched)
            = unmarkPending qk (updateCache ?w tm) (inflight w ! i)" by blast
    have "cache (step qk dk w ev) = cache (updateCache w tm)"
      using FetchSettles True t(3) by (simp add: updateCache_cache)
    with t(1,2) show ?thesis by blast
  qed
qed

lemma step_error_null:
  "error_null (cache w) \<Longrightarrow> error_null (cache (step qk dk w ev))"
  using step_cache[of qk dk w ev] updateCache_error_null by metis

lemma step_no_method_entries:
  "no_method_entries (cache w) \<Longrightarrow> no_method_entries (cache (step qk dk w ev))"
  using step_cache[of qk dk w ev] updateCache_no_method_entries by metis

lemma step_mono:
  "no_method_entries (cache w) \<Longrightarrow> cache w k \<noteq> None \<Longrightarrow> cache (step qk dk w ev) k \<noteq> None"
  using step_cache[of qk dk w ev] updateCache_mono by metis

lemma populate_settle_fields:
  "inflight (fst (populate_settle qk dk w missing fetched)) = inflight w"
  "fetch_calls (fst (populate_settle qk dk w missing fetched)) = fetch_calls w"
  "flushed (fst (populate_settle qk dk w missing fetched)) = flushed w"
  "queryMap (fst (populate_settle qk dk w missing fetched)) = queryMap w"
  using populate_settle_update[of qk dk w missing fetched] by auto

lemma getMissing_ordinary:
  "\<forall>q \<in> set (getMissing qk s queries). ordinary_key (qk q)"
  by (simp add: getMissing_filter)

lemma step_batches_ordinary:
  assumes "batches_ordinary qk (inflight w)"
  shows "batches_ordinary qk (inflight (step qk dk w ev))"
proof (cases ev)
  case (Get q)
  then show ?thesis using assms by simp
next
  case TimerFires
  show ?thesis
  proof (cases "queryMap w")
    case None
    then show ?thesis using TimerFires assms by (simp add: debounce_fire_def)
  next
    case (Some acc)
    then show ?thesis using TimerFires assms
      by (auto simp: debounce_fire_def flush_def populate_begin_def Let_def batches_ordinary_def
               dest: getMissing_member)
  qed
next
  case (AddData ds m)
  then show ?thesis using assms by (simp add: addData_def)
next
  case (FetchSettles i fetched)
  have "set (take i (inflight w) @ drop (Suc i) (inflight w)) \<subseteq> set (inflight w)"
    by (auto dest: in_set_takeD in_set_dropD)
  then show ?thesis using FetchSettles assms
    by (auto simp: populate_settle_fields batches_ordinary_def)
qed

lemma run_invariants:
  assumes "no_method_entries (cache w)" and "batches_ordinary qk (inflight w)"
    and "error_null (cache w)"
  shows "no_method_entries (cache (run qk dk w events))
       \<and> batches_ordinary qk (inflight (run qk dk w events))
       \<and> error_null (cache (run qk dk w events))"
  using assms unfolding run_def
  by (induction events arbitrary: w)
     (simp_all add: step_no_method_entries step_batches_ordinary step_error_null)

lemma new_cache_invariants:
  "no_method_entries (cache (run qk dk new_cache events))"
  "batches_ordinary qk (inflight (run qk dk new_cache events))"
  "error_null (cache (run qk dk new_cache events))"
  using run_invariants[of new_cache qk dk events]
  by (simp_all add: new_cache_def no_method_entries_def batches_ordinary_def error_null_def)

section \<open>Error entries\<close>

text \<open>
  Claim C2, as the code has it. In every Snapshot the cache can reach, every entry whose
  status is \<^verbatim>\<open>error\<close> has \<^verbatim>\<open>null\<close> data. \<^verbatim>\<open>markError\<close>, called with a batch that
  \<^verbatim>\<open>getMissing\<close> has let through, writes the entry without metadata of its own, and the
  deep merge keeps the \<^verbatim>\<open>meta\<close> field of the entry that was stored under the key: the
  error entry carries metadata exactly when that entry did.
\<close>

theorem error_entries_have_null_data:
  "(cache (run qk dk new_cache events) k = Some e \<and> status e = Error \<longrightarrow> data e = JNull)
   \<and> (q \<in> set (getMissing qk earlier queries) \<longrightarrow>
        cache (markError qk s (getMissing qk earlier queries)) (qk q)
          = Some \<lparr> status = Error, data = JNull,
                   meta = (case cache s (qk q) of None \<Rightarrow> None | Some cur \<Rightarrow> meta cur) \<rparr>)"
proof -
  have "error_null (cache (run qk dk new_cache events))"
    by (rule new_cache_invariants)
  moreover have "cache (markError qk s (getMissing qk earlier queries)) (qk q)
          = Some \<lparr> status = Error, data = JNull,
                   meta = (case cache s (qk q) of None \<Rightarrow> None | Some cur \<Rightarrow> meta cur) \<rparr>"
    if "q \<in> set (getMissing qk earlier queries)"
    using that getMissing_member[OF that] by (intro markError_entry) (simp_all add: ordinary_key_kept)
  ultimately show ?thesis
    by (auto simp: error_null_def)
qed

theorem error_entries_have_null_data_witness:
  "cache (run id string_key new_cache [Get ''a'', TimerFires, FetchSettles 0 (Rejected JNull)]) ''a''
     = Some \<lparr> status = Error, data = JNull, meta = None \<rparr>
   \<and> status \<lparr> status = Error, data = JNull, meta = None \<rparr> = Error
   \<and> data \<lparr> status = Error, data = JNull, meta = None \<rparr> = JNull
   \<and> ''a'' \<in> set (getMissing id init [''a''])
   \<and> cache (markError id init (getMissing id init [''a''])) (id ''a'')
       = Some \<lparr> status = Error, data = JNull, meta = None \<rparr>"
proof -
  have r: "cache (run id string_key new_cache [Get ''a'', TimerFires, FetchSettles 0 (Rejected JNull)]) ''a''
     = Some \<lparr> status = Error, data = JNull, meta = None \<rparr>"
    by code_simp
  have g: "getMissing id init [''a''] = [''a'']"
    by code_simp
  show ?thesis
    using error_entries_have_null_data
            [where qk=id and dk=string_key
               and events="[Get ''a'', TimerFires, FetchSettles 0 (Rejected JNull)]"
               and k="''a''" and e="\<lparr> status = Error, data = JNull, meta = None \<rparr>"
               and q="''a''" and earlier=init and queries="[''a'']" and s=init]
          r g
    by (simp add: init_def)
qed

text \<open>
  An error entry that carries metadata: the fetch for \<^verbatim>\<open>a\<close> is in flight, a second
  fetch returns an augmented group with a datum for \<^verbatim>\<open>a\<close>, then the first fetch fails.
\<close>

theorem error_entry_with_meta_counterexample:
  "cache (run id string_key new_cache
            [Get ''a'', TimerFires, Get ''b'', TimerFires,
             FetchSettles 1 (Fulfilled [JObj [(''data'', JArr [JStr ''a'']), (''meta'', JStr ''M'')]]),
             FetchSettles 0 (Rejected JNull)]) ''a''
   = Some \<lparr> status = Error, data = JNull, meta = Some (JStr ''M'') \<rparr>"
  by code_simp

section \<open>A failed fetch\<close>







section \<open>addData\<close>

text \<open>
  Claim C4 at a concrete input: on a new cache, \<^verbatim>\<open>addData(["a"], "M")\<close> makes \<^verbatim>\<open>peek\<close>
  return a complete entry with the datum, and the fetch collaborator is not called; but
  the entry has no \<^verbatim>\<open>meta\<close> field. The metadata is used for the key only, where
  \<^verbatim>\<open>putData\<close> stores it in the entry.
\<close>

theorem addData_drops_meta:
  "peek id (step id string_key new_cache (AddData [JStr ''a''] (JStr ''M''))) ''a''
     = Value \<lparr> status = Complete, data = JStr ''a'', meta = None \<rparr>
   \<and> id ''a'' = string_key (JStr ''a'') (JStr ''M'')
   \<and> fetch_calls (step id string_key new_cache (AddData [JStr ''a''] (JStr ''M''))) = []"
  by code_simp

section \<open>The result merge\<close>

lemma stage_all_staged:
  assumes "k \<in> fst ` set kes" and "k \<noteq> ''__proto__''"
  shows "\<exists>e. (k, e) \<in> set kes \<and> map_of (fst (stage_all st kes)) k = Some e"
proof -
  from assms(1) have "map_of (rev kes) k \<noteq> None"
    by (simp add: map_of_eq_None_iff)
  then obtain e where e: "map_of (rev kes) k = Some e" by blast
  then have "(k, e) \<in> set kes" by (auto dest: map_of_SomeD)
  moreover have "map_of (fst (stage_all st kes)) k = Some e"
    using e assms(2) by (simp add: stage_all_map_of)
  ultimately show ?thesis by blast
qed

text \<open>
  Claim C7, as the code has it. The merge looks at each element of a fetch result by
  itself, and first checks it for a \<^verbatim>\<open>meta\<close> field; the check throws on \<^verbatim>\<open>null\<close>, on
  \<^verbatim>\<open>undefined\<close> and on an object that has a field \<^verbatim>\<open>hasOwnProperty\<close>. An element that
  carries a \<^verbatim>\<open>meta\<close> field is treated as an augmented group. If its \<^verbatim>\<open>data\<close> field is
  not iterable (as for a flat datum that has a \<^verbatim>\<open>meta\<close> field of its own), the merge
  throws and stages nothing. Otherwise each datum of the \<^verbatim>\<open>data\<close> list is staged, in
  order, as a complete entry with the datum and the group's metadata under the key
  \<^verbatim>\<open>dataToKey(datum, meta)\<close>, so that afterwards, for a key other than \<^verbatim>\<open>__proto__\<close>,
  the key is marked as having data and \<^verbatim>\<open>toMerge\<close> holds under it the entry of the last
  datum of the group with that key (the datum itself when the keys of the group are
  distinct). An element without a \<^verbatim>\<open>meta\<close> field is staged as a complete entry with
  the element as data and no metadata under the key \<^verbatim>\<open>dataToKey(element)\<close>, for a key
  other than \<^verbatim>\<open>__proto__\<close>.
\<close>

theorem putElement_classifies:
  assumes "isAugmentedData elt = Inr b"
  shows "b = has_meta elt
       \<and> (has_meta elt \<longrightarrow>
           (\<forall>err. iterate (get_prop elt ''data'') = Inl err \<longrightarrow> putElement dk st elt = Inl err)
         \<and> (\<forall>items. iterate (get_prop elt ''data'') = Inr items \<longrightarrow>
              (\<exists>st'.
                 putElement dk st elt = Inr st'
               \<and> st' = stage_all st
                          (map (\<lambda>datum. (dk datum (get_prop elt ''meta''),
                                         \<lparr> status = Complete, data = datum,
                                           meta = Some (get_prop elt ''meta'') \<rparr>)) items)
               \<and> (\<forall>datum \<in> set items.
                     dk datum (get_prop elt ''meta'') \<noteq> ''__proto__'' \<longrightarrow>
                     snd st' (dk datum (get_prop elt ''meta'')) = Some True
                   \<and> (\<exists>last \<in> set items.
                         dk last (get_prop elt ''meta'') = dk datum (get_prop elt ''meta'')
                       \<and> (distinct (map (\<lambda>d. dk d (get_prop elt ''meta'')) items)
                            \<longrightarrow> last = datum)
                       \<and> map_of (fst st') (dk datum (get_prop elt ''meta''))
                           = Some \<lparr> status = Complete, data = last,
                                    meta = Some (get_prop elt ''meta'') \<rparr>)))))
       \<and> (\<not> has_meta elt \<longrightarrow>
             (\<exists>st'.
                putElement dk st elt = Inr st'
              \<and> st' = stage st (dk elt JUndefined)
                         \<lparr> status = Complete, data = elt, meta = None \<rparr>
              \<and> (dk elt JUndefined \<noteq> ''__proto__'' \<longrightarrow>
                    snd st' (dk elt JUndefined) = Some True
                  \<and> map_of (fst st') (dk elt JUndefined)
                      = Some \<lparr> status = Complete, data = elt, meta = None \<rparr>)))"
proof -
  have b: "b = has_meta elt"
    using assms by (rule isAugmentedData_has_meta)
  let ?m = "get_prop elt ''meta''"
  let ?f = "\<lambda>datum. (dk datum ?m, \<lparr> status = Complete, data = datum, meta = Some ?m \<rparr>)"
  have flat: "\<exists>st'. putElement dk st elt = Inr st'
              \<and> st' = stage st (dk elt JUndefined) \<lparr> status = Complete, data = elt, meta = None \<rparr>
              \<and> (dk elt JUndefined \<noteq> ''__proto__'' \<longrightarrow>
                    snd st' (dk elt JUndefined) = Some True
                  \<and> map_of (fst st') (dk elt JUndefined)
                      = Some \<lparr> status = Complete, data = elt, meta = None \<rparr>)"
    if "\<not> has_meta elt"
    using that assms b
    by (simp add: putElement_def stage_def map_of_assign set_prop_def)
  have thrown: "putElement dk st elt = Inl err"
    if "has_meta elt" "iterate (get_prop elt ''data'') = Inl err" for err
    using that assms b by (simp add: putElement_def)
  have group: "\<exists>st'. putElement dk st elt = Inr st'
               \<and> st' = stage_all st (map ?f items)
               \<and> (\<forall>datum \<in> set items.
                     dk datum ?m \<noteq> ''__proto__'' \<longrightarrow>
                     snd st' (dk datum ?m) = Some True
                   \<and> (\<exists>last \<in> set items.
                         dk last ?m = dk datum ?m
                       \<and> (distinct (map (\<lambda>d. dk d ?m) items) \<longrightarrow> last = datum)
                       \<and> map_of (fst st') (dk datum ?m)
                           = Some \<lparr> status = Complete, data = last, meta = Some ?m \<rparr>))"
    if h: "has_meta elt" and it: "iterate (get_prop elt ''data'') = Inr items" for items
  proof -
    let ?st' = "stage_all st (map ?f items)"
    have put: "putElement dk st elt = Inr ?st'"
      using h it assms b by (simp add: putElement_def stage_all_map Let_def)
    have each: "snd ?st' (dk datum ?m) = Some True
        \<and> (\<exists>last \<in> set items. dk last ?m = dk datum ?m
              \<and> (distinct (map (\<lambda>d. dk d ?m) items) \<longrightarrow> last = datum)
              \<and> map_of (fst ?st') (dk datum ?m)
                   = Some \<lparr> status = Complete, data = last, meta = Some ?m \<rparr>)"
      if d: "datum \<in> set items" and np: "dk datum ?m \<noteq> ''__proto__''" for datum
    proof -
      have k: "dk datum ?m \<in> fst ` set (map ?f items)"
        using d by force
      then have 1: "snd ?st' (dk datum ?m) = Some True"
        using np by (simp add: stage_all_keyHasData)
      from stage_all_staged[OF k np, of st] obtain e where
        e: "(dk datum ?m, e) \<in> set (map ?f items)" "map_of (fst ?st') (dk datum ?m) = Some e"
        by blast
      from e(1) obtain last where l: "last \<in> set items" "dk last ?m = dk datum ?m"
        "e = \<lparr> status = Complete, data = last, meta = Some ?m \<rparr>"
        by auto
      have "distinct (map (\<lambda>d. dk d ?m) items) \<Longrightarrow> last = datum"
        using l(1,2) d by (meson distinct_map inj_onD)
      with 1 e(2) l show ?thesis by blast
    qed
    show ?thesis
      using put each by blast
  qed
  show ?thesis
    using b flat thrown group by blast
qed

theorem putElement_classifies_witness:
  "isAugmentedData (JObj [(''data'', JArr [JStr ''a'', JStr ''b'']), (''meta'', JStr ''M'')])
     = Inr True
   \<and> putElement string_key ([], Map.empty)
        (JObj [(''data'', JArr [JStr ''a'', JStr ''b'']), (''meta'', JStr ''M'')])
       = Inr (stage_all ([], Map.empty)
                [(''a'', \<lparr> status = Complete, data = JStr ''a'', meta = Some (JStr ''M'') \<rparr>),
                 (''b'', \<lparr> status = Complete, data = JStr ''b'', meta = Some (JStr ''M'') \<rparr>)])
   \<and> isAugmentedData (JStr ''c'') = Inr False
   \<and> putElement string_key ([], Map.empty) (JStr ''c'')
       = Inr ([(''c'', \<lparr> status = Complete, data = JStr ''c'', meta = None \<rparr>)], [''c'' \<mapsto> True])"
proof -
  let ?g = "JObj [(''data'', JArr [JStr ''a'', JStr ''b'']), (''meta'', JStr ''M'')]"
  have g: "isAugmentedData ?g = Inr True" by simp
  have c: "isAugmentedData (JStr ''c'') = Inr False" by simp
  show ?thesis
    using putElement_classifies[OF g, of string_key "([], Map.empty)"]
          putElement_classifies[OF c, of string_key "([], Map.empty)"] g c
    by (auto simp: string_key_def stage_def assign_def set_prop_def has_meta_def)
qed

text \<open>
  The claim as the spec words it, for every element, fails on a flat datum that has a
  \<^verbatim>\<open>meta\<close> field of its own: it is taken for a group, it has no data list, and the
  merge throws. It fails too on a datum whose key is \<^verbatim>\<open>__proto__\<close>: the assignment
  stages nothing.
\<close>

theorem putElement_counterexample:
  "putElement string_key ([], Map.empty) (JObj [(''id'', JStr ''x''), (''meta'', JStr ''m'')])
     = Inl TypeError
   \<and> putElement string_key ([], Map.empty) (JStr ''__proto__'') = Inr ([], Map.empty)"
  by (simp add: putElement_def string_key_def stage_def assign_def set_prop_def)

lemma putData_staged_None:
  assumes "putData qk dk s batch result = Inr s'"
    and "ordinary_key k" and "k \<in> qk ` set batch"
    and "k \<notin> fst ` set (spec_result_entries dk result)"
  shows "cache s' k
           = Some (stored_over (cache s k) \<lparr> status = Complete, data = JNull, meta = None \<rparr>)"
proof -
  have "map_of (rev (spec_result_entries dk result)) k = None"
    using assms(4) by (simp add: map_of_eq_None_iff)
  then show ?thesis
    using putData_staged[OF assms(1) ordinary_key_no_method[OF assms(2)]
            ordinary_key_not_proto[OF assms(2)]] assms(2,3)
    by (simp add: ordinary_key_def)
qed

text \<open>
  Claim C6. When the merge of a fetch result succeeds, every query key of the batch (a
  list that \<^verbatim>\<open>getMissing\<close> returned when the fetch began) under which no returned datum
  staged an entry (the key is not in \<^verbatim>\<open>toMerge\<close> after the loop over the result) is
  mapped to an entry with status \<^verbatim>\<open>complete\<close> and \<^verbatim>\<open>null\<close> data: the key is present in
  the Snapshot, unlike a key never queried, and its status is not \<^verbatim>\<open>error\<close>. Where the
  key had no entry before, the entry is exactly \<^verbatim>\<open>{status: "complete", data: null}\<close>.
\<close>

theorem putData_marks_absent:
  assumes "putElements dk ([], Map.empty) result = Inr (toMerge, keyHasData)"
    and "q \<in> set (getMissing qk earlier queries)"
    and "qk q \<notin> fst ` set toMerge"
  shows "\<exists>s' e. putData qk dk s (getMissing qk earlier queries) result = Inr s'
           \<and> cache s' (qk q) = Some e \<and> status e = Complete \<and> data e = JNull
           \<and> (cache s (qk q) = None \<longrightarrow> e = \<lparr> status = Complete, data = JNull, meta = None \<rparr>)"
proof -
  let ?batch = "getMissing qk earlier queries"
  let ?kes = "spec_result_entries dk result"
  have ord: "ordinary_key (qk q)"
    using assms(2) by (auto dest: getMissing_member)
  have "(toMerge, keyHasData) = stage_all ([], Map.empty) ?kes"
    using putElements_Inr[OF assms(1)] .
  then have "fst ` set toMerge = fst ` set ?kes - {''__proto__''}"
    using stage_all_keys[of "([], Map.empty)" ?kes] by (metis empty_set fst_conv image_empty sup_bot.left_neutral)
  with assms(3) ord have n: "qk q \<notin> fst ` set ?kes"
    by (auto dest: ordinary_key_not_proto)
  obtain s' where s': "putData qk dk s ?batch result = Inr s'"
    using assms(1) by (simp add: putData_def)
  from putData_staged_None[OF s' ord _ n] assms(2)
  have "cache s' (qk q)
          = Some (stored_over (cache s (qk q)) \<lparr> status = Complete, data = JNull, meta = None \<rparr>)"
    by simp
  then show ?thesis
    using s' by (auto simp: stored_over_null stored_over_None_plain)
qed

theorem putData_marks_absent_witness:
  "putElements string_key ([], Map.empty) [JStr ''a'']
     = Inr ([(''a'', \<lparr> status = Complete, data = JStr ''a'', meta = None \<rparr>)], [''a'' \<mapsto> True])
   \<and> ''b'' \<in> set (getMissing id init [''a'', ''b''])
   \<and> id ''b'' \<notin> fst ` set [(''a'', \<lparr> status = Complete, data = JStr ''a'', meta = None \<rparr>)]
   \<and> (\<exists>s'. putData id string_key init (getMissing id init [''a'', ''b'']) [JStr ''a''] = Inr s'
          \<and> cache s' ''a'' = Some \<lparr> status = Complete, data = JStr ''a'', meta = None \<rparr>
          \<and> cache s' ''b'' = Some \<lparr> status = Complete, data = JNull, meta = None \<rparr>
          \<and> cache s' ''c'' = None)"
proof -
  have p: "putElements string_key ([], Map.empty) [JStr ''a'']
     = Inr ([(''a'', \<lparr> status = Complete, data = JStr ''a'', meta = None \<rparr>)], [''a'' \<mapsto> True])"
    by (simp add: putElement_def stage_def assign_def set_prop_def string_key_def)
  have g: "getMissing id init [''a'', ''b''] = [''a'', ''b'']" by code_simp
  have q: "''b'' \<in> set (getMissing id init [''a'', ''b''])" by (simp add: g)
  have n: "id ''b'' \<notin> fst ` set [(''a'', \<lparr> status = Complete, data = JStr ''a'', meta = None \<rparr>)]"
    by simp
  have a: "case putData id string_key init [''a'', ''b''] [JStr ''a''] of
             Inl err \<Rightarrow> False
           | Inr s' \<Rightarrow> cache s' ''a'' = Some \<lparr> status = Complete, data = JStr ''a'', meta = None \<rparr>
                    \<and> cache s' ''c'' = None"
    by code_simp
  have ci: "cache init ''b'' = None" by (simp add: init_def)
  show ?thesis
    using putData_marks_absent
            [where qk=id and q="''b''" and s=init and dk=string_key and result="[JStr ''a'']"
               and queries="[''a'', ''b'']" and earlier=init, OF p q n] p a q ci
    by (auto simp: g)
qed




section \<open>Key filtering\<close>

lemma step_fetch_calls:
  "\<exists>new. fetch_calls (step qk dk w ev) = fetch_calls w @ new
        \<and> (\<forall>batch \<in> set new. \<forall>q \<in> set batch. cache w (qk q) = None)"
proof (cases ev)
  case (Get q)
  then show ?thesis by simp
next
  case TimerFires
  show ?thesis
  proof (cases "queryMap w")
    case None
    then show ?thesis using TimerFires by (simp add: debounce_fire_def)
  next
    case (Some acc)
    let ?w1 = "w\<lparr>queryMap := None, flushed := flushed w @ [flush_queries acc]\<rparr>"
    let ?missing = "getMissing qk ?w1 (flush_queries acc)"
    have q: "\<forall>q \<in> set ?missing. cache w (qk q) = None"
      by (auto dest: getMissing_member)
    have "fetch_calls (step qk dk w ev)
            = fetch_calls w @ (if ?missing = [] then [] else [?missing])"
      using TimerFires Some
      by (simp add: debounce_fire_def flush_def populate_begin_def Let_def)
    with q show ?thesis by auto
  qed
next
  case (AddData ds m)
  then show ?thesis by (simp add: addData_def)
next
  case (FetchSettles i fetched)
  then show ?thesis by (simp add: populate_settle_fields)
qed

lemma run_never_refetches:
  "no_method_entries (cache w) \<Longrightarrow> cache w k \<noteq> None \<Longrightarrow>
   \<exists>new. fetch_calls (run qk dk w events) = fetch_calls w @ new
        \<and> (\<forall>batch \<in> set new. k \<notin> qk ` set batch)"
proof (induction events arbitrary: w)
  case Nil
  show ?case by (simp add: run_def)
next
  case (Cons ev events)
  from step_fetch_calls[of qk dk w ev] obtain new1 where
    n1: "fetch_calls (step qk dk w ev) = fetch_calls w @ new1"
        "\<forall>batch \<in> set new1. \<forall>q \<in> set batch. cache w (qk q) = None" by blast
  from Cons.IH[OF step_no_method_entries[OF Cons.prems(1)] step_mono[OF Cons.prems], of qk dk ev]
  obtain new2 where
    n2: "fetch_calls (run qk dk (step qk dk w ev) events) = fetch_calls (step qk dk w ev) @ new2"
        "\<forall>batch \<in> set new2. k \<notin> qk ` set batch" by blast
  have "\<forall>batch \<in> set new1. k \<notin> qk ` set batch"
    using n1(2) Cons.prems(2) by auto
  with n1(1) n2 show ?case
    by (intro exI[of _ "new1 @ new2"]) (auto simp: run_def)
qed

text \<open>
  Claim C8 at a concrete input. On a new cache none of the keys \<^verbatim>\<open>toString\<close>, \<^verbatim>\<open>a\<close>
  and \<^verbatim>\<open>constructor\<close> is in the Snapshot or in the PendingSet, yet \<^verbatim>\<open>getMissing\<close>
  returns the query of \<^verbatim>\<open>a\<close> alone: \<^verbatim>\<open>cache[key]\<close> and \<^verbatim>\<open>pending[key]\<close> find the
  functions that the two objects inherit under the other two names. For the keys that are
  not inherited names or method names of the Snapshot, \<open>getMissing_filter\<close> above is the
  claim, and \<open>run_never_refetches\<close> its last part.
\<close>

theorem getMissing_inherited_keys:
  "getMissing id (new_cache :: string world) [''toString'', ''a'', ''constructor''] = [''a'']
   \<and> cache (new_cache :: string world) ''toString'' = None
   \<and> cache (new_cache :: string world) ''constructor'' = None
   \<and> \<not> is_pending (new_cache :: string world) ''toString''
   \<and> \<not> is_pending (new_cache :: string world) ''constructor''"
  by code_simp

section \<open>Coalescing\<close>

lemma foldl_assign_keys:
  "fst ` set (foldl (\<lambda>tm x. assign tm (f x) (g x)) tm0 xs)
     = fst ` set tm0 \<union> (f ` set xs - {''__proto__''})"
proof (induction xs rule: rev_induct)
  case Nil
  show ?case by simp
next
  case (snoc x xs)
  have "fst ` set (foldl (\<lambda>tm x. assign tm (f x) (g x)) tm0 (xs @ [x]))
          = (if f x = ''__proto__'' then fst ` set (foldl (\<lambda>tm x. assign tm (f x) (g x)) tm0 xs)
             else insert (f x) (fst ` set (foldl (\<lambda>tm x. assign tm (f x) (g x)) tm0 xs)))"
    by (simp add: keys_assign)
  also have "\<dots> = fst ` set tm0 \<union> (f ` set (xs @ [x]) - {''__proto__''})"
    unfolding snoc.IH by auto
  finally show ?case .
qed

lemma run_window:
  assumes "\<forall>ev \<in> set events. \<not> is_timer ev"
  shows "queryMap (run qk dk w events)
           = (if gets events = [] then queryMap w
              else Some (foldl (accumulate qk)
                           (case queryMap w of None \<Rightarrow> [] | Some acc \<Rightarrow> acc) (gets events)))
       \<and> flushed (run qk dk w events) = flushed w
       \<and> fetch_calls (run qk dk w events) = fetch_calls w"
  using assms unfolding run_def
proof (induction events arbitrary: w)
  case Nil
  show ?case by simp
next
  case (Cons ev events)
  from Cons.prems have rest: "\<forall>ev \<in> set events. \<not> is_timer ev" and ev: "\<not> is_timer ev"
    by simp_all
  note IH = Cons.IH[OF rest, of "step qk dk w ev"]
  show ?case
  proof (cases ev)
    case (Get q)
    then show ?thesis using IH by (simp add: debounce_call_def)
  next
    case TimerFires
    then show ?thesis using ev by simp
  next
    case (AddData ds m)
    then show ?thesis using IH by (simp add: addData_def)
  next
    case (FetchSettles i fetched)
    then show ?thesis using IH by (simp add: populate_settle_fields)
  qed
qed

lemma accumulate_foldl:
  "foldl (accumulate qk) acc qs = foldl (\<lambda>tm x. assign tm (qk x) x) acc qs"
  by (induction qs arbitrary: acc) (simp_all add: accumulate_def)

lemma map_filter_cong_set:
  "(\<And>x. x \<in> set xs \<Longrightarrow> f x = g x) \<Longrightarrow> List.map_filter f xs = List.map_filter g xs"
  by (induction xs) (simp_all split: option.splits)

lemma flush_queries_values:
  "distinct (map fst qm) \<Longrightarrow> flush_queries qm = map snd qm"
  unfolding flush_queries_def object_keys_def
proof (induction qm)
  case Nil
  show ?case by simp
next
  case (Cons kv rest)
  obtain k v where kv: "kv = (k, v)" by (cases kv)
  from Cons.prems kv have k: "k \<notin> set (map fst rest)" and d: "distinct (map fst rest)"
    by simp_all
  have e: "List.map_filter (map_of (kv # rest)) (map fst rest)
          = List.map_filter (map_of rest) (map fst rest)"
    using k kv by (intro map_filter_cong_set) auto
  have "List.map_filter (map_of (kv # rest)) (map fst (kv # rest))
          = v # List.map_filter (map_of (kv # rest)) (map fst rest)"
    by (simp add: kv)
  also have "\<dots> = v # List.map_filter (map_of rest) (map fst rest)"
    by (simp only: e)
  also have "\<dots> = map snd (kv # rest)"
    using Cons.IH[OF d] by (simp add: kv)
  finally show ?case .
qed

lemma map_of_rev_last:
  "map_of (rev (map (\<lambda>x. (f x, x)) xs)) k = Some y \<Longrightarrow> y = last (filter (\<lambda>x. f x = k) xs)"
  by (induction xs rule: rev_induct) (auto split: if_splits)

lemma flush_fields:
  "flushed (flush qk w acc) = flushed w @ [flush_queries acc]"
  "queryMap (flush qk w acc) = queryMap w"
  "fetch_calls (flush qk w acc)
     = fetch_calls w @ (if getMissing qk w (flush_queries acc) = [] then []
                        else [getMissing qk w (flush_queries acc)])"
  by (simp_all add: flush_def populate_begin_def Let_def getMissing_def markPending_def)

lemma getMissing_queryMap [simp]:
  "getMissing qk (w\<lparr>queryMap := x\<rparr>) qs = getMissing qk w qs"
  by (simp add: getMissing_def)

text \<open>
  Claim C9, as the code has it. A debounce window runs from the idle debouncer to the
  firing of its timer; in it \<^verbatim>\<open>get\<close> is called at least once, and data may be added
  and fetches may settle meanwhile. Nothing is flushed before the timer fires, and its
  firing flushes exactly one batch. The batch holds at most one query per key, its keys
  are the keys of the queries of the window other than \<^verbatim>\<open>__proto__\<close>, and the query
  kept for a key is the latest one of the window with that key. Nothing is fetched
  before the timer fires, and the flush leads to at most one call of the fetch
  collaborator: one call, with the queries of the batch that \<^verbatim>\<open>getMissing\<close> lets through
  at that moment, when there is such a query, and no call otherwise.
\<close>

theorem window_flushes_once:
  assumes "queryMap w = None" and "\<forall>ev \<in> set events. \<not> is_timer ev"
    and "gets events \<noteq> []"
  shows "\<exists>batch.
           flushed (run qk dk w events) = flushed w
         \<and> flushed (run qk dk w (events @ [TimerFires])) = flushed w @ [batch]
         \<and> distinct (map qk batch)
         \<and> qk ` set batch = qk ` set (gets events) - {''__proto__''}
         \<and> (\<forall>q \<in> set batch. q = last (filter (\<lambda>x. qk x = qk q) (gets events)))
         \<and> queryMap (run qk dk w (events @ [TimerFires])) = None
         \<and> fetch_calls (run qk dk w events) = fetch_calls w
         \<and> fetch_calls (run qk dk w (events @ [TimerFires]))
             = fetch_calls w @ (if getMissing qk (run qk dk w events) batch = [] then []
                                else [getMissing qk (run qk dk w events) batch])"
proof -
  let ?qs = "gets events"
  let ?acc = "foldl (accumulate qk) [] ?qs"
  let ?batch = "map snd ?acc"
  let ?pairs = "map (\<lambda>x. (qk x, x)) ?qs"
  let ?mid = "run qk dk w events"
  have a: "assigned ?acc"
    by (simp add: accumulate_foldl foldl_assign_assigned)
  then have d: "distinct (map fst ?acc)" by (simp add: assigned_def)
  have m: "k \<noteq> ''__proto__'' \<Longrightarrow> map_of ?acc k = map_of (rev ?pairs) k" for k
    by (simp add: accumulate_foldl foldl_assign_map_of)
  have mem: "k = qk q \<and> q = last (filter (\<lambda>x. qk x = k) ?qs)" if "(k, q) \<in> set ?acc" for k q
  proof -
    from that a have "k \<noteq> ''__proto__''"
      by (force simp: assigned_def)
    moreover from that d have "map_of ?acc k = Some q"
      by (rule map_of_is_SomeI[rotated])
    ultimately have s: "map_of (rev ?pairs) k = Some q"
      using m by simp
    then have "(k, q) \<in> set ?pairs" by (auto dest: map_of_SomeD)
    then have "k = qk q" by auto
    with map_of_rev_last[OF s] show ?thesis by simp
  qed
  have keys: "map qk ?batch = map fst ?acc"
    using mem by (auto simp: map_eq_conv)
  have 1: "distinct (map qk ?batch)"
    using d by (simp only: keys)
  have "fst ` set ?acc = qk ` set ?qs - {''__proto__''}"
    by (simp add: accumulate_foldl foldl_assign_keys)
  then have 2: "qk ` set ?batch = qk ` set ?qs - {''__proto__''}"
    using keys by (metis image_set)
  have 3: "\<forall>q \<in> set ?batch. q = last (filter (\<lambda>x. qk x = qk q) ?qs)"
    using mem by force
  from run_window[OF assms(2), of qk dk w] assms(1,3)
  have mid: "queryMap ?mid = Some ?acc" "flushed ?mid = flushed w"
    "fetch_calls ?mid = fetch_calls w"
    by simp_all
  have r: "run qk dk w (events @ [TimerFires]) = flush qk (?mid\<lparr>queryMap := None\<rparr>) ?acc"
    using mid(1) by (simp add: run_def debounce_fire_def)
  have f: "flush_queries ?acc = ?batch"
    using d by (rule flush_queries_values)
  show ?thesis
    using 1 2 3 mid(2,3)
    by (intro exI[of _ ?batch]) (simp add: r f flush_fields)
qed

theorem window_flushes_once_witness:
  "queryMap (new_cache :: string world) = None
   \<and> gets [Get ''q1'', AddData [JStr ''q3''] JUndefined, Get ''q2'', Get ''q1'', Get ''q3'']
       = [''q1'', ''q2'', ''q1'', ''q3'']
   \<and> flushed (run id string_key new_cache
        ([Get ''q1'', AddData [JStr ''q3''] JUndefined, Get ''q2'', Get ''q1'', Get ''q3'']
         @ [TimerFires]))
       = [[''q1'', ''q2'', ''q3'']]
   \<and> fetch_calls (run id string_key new_cache
        ([Get ''q1'', AddData [JStr ''q3''] JUndefined, Get ''q2'', Get ''q1'', Get ''q3'']
         @ [TimerFires]))
       = [[''q1'', ''q2'']]"
proof -
  let ?evs = "[Get ''q1'', AddData [JStr ''q3''] JUndefined, Get ''q2'', Get ''q1'', Get ''q3'']"
  have q: "queryMap (new_cache :: string world) = None" by (simp add: new_cache_def)
  have t: "\<forall>ev \<in> set ?evs. \<not> is_timer ev" by simp
  have g: "gets ?evs = [''q1'', ''q2'', ''q1'', ''q3'']" by simp
  have n: "gets ?evs \<noteq> []" by simp
  have f: "flushed (run id string_key new_cache (?evs @ [TimerFires])) = [[''q1'', ''q2'', ''q3'']]"
    by code_simp
  have c: "fetch_calls (run id string_key new_cache (?evs @ [TimerFires])) = [[''q1'', ''q2'']]"
    by code_simp
  show ?thesis
    using window_flushes_once[OF q t n, of id string_key] q g f c by simp
qed

text \<open>
  A window without a fetch: the key of the only query is already in the Snapshot, so the
  flush happens and \<^verbatim>\<open>populate\<close> returns before calling the fetch collaborator.
\<close>

theorem window_without_fetch_counterexample:
  "flushed (run id string_key new_cache [AddData [JStr ''a''] JUndefined, Get ''a'', TimerFires])
     = [[''a'']]
   \<and> fetch_calls (run id string_key new_cache [AddData [JStr ''a''] JUndefined, Get ''a'', TimerFires])
     = []"
  by code_simp

end
